theory Spec2Isabelle
  imports Main "HOL-Library.Signed_Division"
begin

section \<open>The circular buffer of encryption.hpp\<close>

text \<open>
  The class template \<^verbatim>\<open>CircularBuffer<T, cap, Container = std::array<T, cap>>\<close> is a
  record of its six data members. A C++ member name starts with an underscore, which an
  Isabelle name cannot, so the member \<^verbatim>\<open>_head\<close> is the field \<open>m_head\<close>, and so on; the
  container \<^verbatim>\<open>c\<close> is \<open>m_c\<close>, a list with one entry per slot of the array.

  The counters are C++ \<^verbatim>\<open>int\<close>s and are modelled as mathematical integers: the lemma
  \<open>invar_run\<close> below shows that they stay between 0 and the capacity in every state
  the operations can reach, and the largest value a call computes on the way is the
  capacity plus 1. So, for a capacity below the largest \<^verbatim>\<open>int\<close>, no \<^verbatim>\<open>int\<close>
  overflows and no conversion between \<^verbatim>\<open>int\<close>, \<^verbatim>\<open>unsigned int\<close> and
  \<^verbatim>\<open>std::size_t\<close> changes a value: \<^verbatim>\<open>size()\<close> is \<open>m_size\<close>, and \<^verbatim>\<open>(int)size()\<close>
  is \<open>m_size\<close> again. The operator \<^verbatim>\<open>%\<close> of C++ truncates towards zero; it is
  \<open>smod\<close>.
\<close>

datatype error =
  overflow_error        \<comment> \<open>\<^verbatim>\<open>std::overflow_error\<close>, thrown by \<^verbatim>\<open>place_back\<close>\<close>
| underflow_error       \<comment> \<open>\<^verbatim>\<open>std::underflow_error\<close>, thrown by \<^verbatim>\<open>pop\<close>\<close>
| out_of_range          \<comment> \<open>\<^verbatim>\<open>std::out_of_range\<close>, thrown by \<^verbatim>\<open>std::array::at\<close>\<close>
| terminated            \<comment> \<open>an exception leaving a \<^verbatim>\<open>noexcept\<close> function: \<^verbatim>\<open>std::terminate\<close>\<close>
| undefined_behaviour   \<comment> \<open>\<^verbatim>\<open>%\<close> by zero, or reading through a pointer outside the array\<close>

record 'a CircularBuffer =
  m_c :: "'a list"
  m_head :: int
  m_tail :: int
  m_size :: int
  m_current :: int
  m_capacity :: int

text \<open>
  The constructor zeroes the four counters and stores \<^verbatim>\<open>cap\<close>. It does not initialise
  the container: what the slots hold at first is the parameter \<open>c0\<close>.
\<close>

definition CircularBuffer_new :: "int \<Rightarrow> 'a list \<Rightarrow> 'a CircularBuffer" where
  "CircularBuffer_new cap c0 =
     \<lparr>m_c = c0, m_head = 0, m_tail = 0, m_size = 0, m_current = 0, m_capacity = cap\<rparr>"

text \<open>\<^verbatim>\<open>std::array::at\<close>: the checked access.\<close>

definition array_at :: "'a list \<Rightarrow> int \<Rightarrow> error + 'a" where
  "array_at xs i =
     (if 0 \<le> i \<and> i < int (length xs) then Inr (xs ! nat i) else Inl out_of_range)"

definition head :: "'a CircularBuffer \<Rightarrow> error + 'a" where
  "head b = array_at (m_c b) (m_head b)"

definition tail :: "'a CircularBuffer \<Rightarrow> error + 'a" where
  "tail b = array_at (m_c b) (m_tail b)"

text \<open>
  Every mutating member function returns the exception it threw, if any, and the state
  of the object at that moment. In \<^verbatim>\<open>push_back\<close> the index expression
  \<^verbatim>\<open>_current++\<close> is evaluated before \<^verbatim>\<open>at\<close> is entered, so a failing \<^verbatim>\<open>at\<close> finds the
  cursor already advanced; the function is \<^verbatim>\<open>noexcept\<close>, so that failure ends the
  program.
\<close>

definition push_back :: "'a CircularBuffer \<Rightarrow> 'a \<Rightarrow> error option \<times> 'a CircularBuffer" where
  "push_back b val =
     (let b1 = (if m_current b \<ge> m_capacity b then b\<lparr>m_current := 0\<rparr> else b);
          i = m_current b1;
          b2 = b1\<lparr>m_current := i + 1\<rparr>
      in if \<not> (0 \<le> i \<and> i < int (length (m_c b2))) then (Some terminated, b2)
         else
           let b3 = b2\<lparr>m_c := (m_c b2)[nat i := val]\<rparr>;
               b4 = b3\<lparr>m_tail := m_current b3 - 1\<rparr>;
               s = m_size b4;
               b5 = b4\<lparr>m_size := s + 1\<rparr>
           in if s \<ge> m_capacity b5 then
                let b6 = b5\<lparr>m_size := m_capacity b5\<rparr>;
                    b7 = b6\<lparr>m_head := m_head b6 + 1\<rparr>
                in (None, if m_head b7 \<ge> m_capacity b7 then b7\<lparr>m_head := 0\<rparr> else b7)
              else (None, b5))"

definition size_buf :: "'a CircularBuffer \<Rightarrow> int" where
  "size_buf b = m_size b"

definition capacity :: "'a CircularBuffer \<Rightarrow> int" where
  "capacity b = m_capacity b"

definition empty_buf :: "'a CircularBuffer \<Rightarrow> bool" where
  "empty_buf b = (size_buf b \<le> 0)"

definition full :: "'a CircularBuffer \<Rightarrow> bool" where
  "full b = (size_buf b \<ge> m_capacity b)"

definition place_back :: "'a CircularBuffer \<Rightarrow> 'a \<Rightarrow> error option \<times> 'a CircularBuffer" where
  "place_back b val = (if full b then (Some overflow_error, b) else push_back b val)"

definition pop :: "'a CircularBuffer \<Rightarrow> error option \<times> 'a CircularBuffer" where
  "pop b =
     (if m_size b \<le> 0 then (Some underflow_error, b)
      else
        let b1 = b\<lparr>m_head := m_head b + 1\<rparr>;
            b2 = (if m_head b1 \<ge> m_capacity b1 then b1\<lparr>m_head := 0\<rparr> else b1)
        in (None, b2\<lparr>m_size := m_size b2 - 1\<rparr>))"

subsection \<open>The iterator\<close>

text \<open>
  \<^verbatim>\<open>CircularBufferIterator<Container, Container::iterator>\<close>. An iterator of
  \<^verbatim>\<open>std::array\<close> is a position in the array, kept as its distance from \<^verbatim>\<open>c.begin()\<close>;
  \<^verbatim>\<open>c.end()\<close> is the length of the array. The member \<^verbatim>\<open>_buf\<close> is a reference to the
  container of the buffer: the operations that read it take the container as argument.
\<close>

record CircularBufferIterator =
  it_begin :: int
  it_cursor :: int
  it_done :: bool

definition op_deref :: "'a list \<Rightarrow> CircularBufferIterator \<Rightarrow> error + 'a" where
  "op_deref buf it =
     (if 0 \<le> it_cursor it \<and> it_cursor it < int (length buf)
      then Inr (buf ! nat (it_cursor it)) else Inl undefined_behaviour)"

definition op_inc :: "'a list \<Rightarrow> CircularBufferIterator \<Rightarrow> CircularBufferIterator" where
  "op_inc buf it =
     (let it1 = it\<lparr>it_cursor := it_cursor it + 1\<rparr>;
          it2 = (if it_cursor it1 = int (length buf) then it1\<lparr>it_cursor := 0\<rparr> else it1)
      in it2\<lparr>it_done := (it_cursor it2 = it_begin it2)\<rparr>)"

definition op_eq :: "CircularBufferIterator \<Rightarrow> CircularBufferIterator \<Rightarrow> bool" where
  "op_eq a b =
     (if it_done a \<and> it_done b then True
      else if \<not> it_done a \<and> \<not> it_done b then it_cursor a = it_cursor b
      else False)"

definition op_neq :: "CircularBufferIterator \<Rightarrow> CircularBufferIterator \<Rightarrow> bool" where
  "op_neq a b = (\<not> op_eq a b)"

definition begin_it :: "'a CircularBuffer \<Rightarrow> error + CircularBufferIterator" where
  "begin_it b =
     (if m_capacity b = 0 then Inl undefined_behaviour
      else let offset = m_head b smod m_capacity b
           in Inr \<lparr>it_begin = offset, it_cursor = offset, it_done = False\<rparr>)"

text \<open>
  The offset of \<^verbatim>\<open>end()\<close> is \<^verbatim>\<open>_tail + 1 % _capacity\<close>; \<^verbatim>\<open>%\<close> binds tighter than
  \<^verbatim>\<open>+\<close>.
\<close>

definition end_offset :: "int \<Rightarrow> int \<Rightarrow> int" where
  "end_offset tl_idx cap = tl_idx + (1 smod cap)"

definition end_it :: "'a CircularBuffer \<Rightarrow> error + CircularBufferIterator" where
  "end_it b =
     (if m_capacity b = 0 then Inl undefined_behaviour
      else let offset = end_offset (m_tail b) (m_capacity b)
           in Inr \<lparr>it_begin = offset, it_cursor = offset, it_done = full b\<rparr>)"

text \<open>
  The traversal a client writes,
  \<^verbatim>\<open>for (auto it = b.begin(); it != b.end(); ++it) out.push_back(*it);\<close>
  with a bound on the number of times the condition is tested: \<open>None\<close> says that the bound
  was reached with the loop still running.
\<close>

fun traverse ::
  "nat \<Rightarrow> 'a list \<Rightarrow> CircularBufferIterator \<Rightarrow> CircularBufferIterator \<Rightarrow> (error + 'a list) option"
where
  "traverse 0 buf it e = None"
| "traverse (Suc k) buf it e =
     (if op_neq it e then
        (case op_deref buf it of
           Inl err \<Rightarrow> Some (Inl err)
         | Inr x \<Rightarrow>
             (case traverse k buf (op_inc buf it) e of
                None \<Rightarrow> None
              | Some (Inl err) \<Rightarrow> Some (Inl err)
              | Some (Inr xs) \<Rightarrow> Some (Inr (x # xs))))
      else Some (Inr []))"

definition iterate :: "nat \<Rightarrow> 'a CircularBuffer \<Rightarrow> (error + 'a list) option" where
  "iterate k b =
     (case begin_it b of
        Inl err \<Rightarrow> Some (Inl err)
      | Inr it \<Rightarrow>
          (case end_it b of
             Inl err \<Rightarrow> Some (Inl err)
           | Inr e \<Rightarrow> traverse k (m_c b) it e))"

subsection \<open>Sequences of operations\<close>

text \<open>
  A client's calls on one buffer. An exception of \<^verbatim>\<open>place_back\<close> or \<^verbatim>\<open>pop\<close> is caught
  by the client, who goes on with the buffer as the throw left it; a \<^verbatim>\<open>push_back\<close>
  that ends the program ends the sequence, with no state.
\<close>

datatype 'a op = PushBack 'a | PlaceBack 'a | Pop

fun apply_op :: "'a CircularBuffer \<Rightarrow> 'a op \<Rightarrow> error option \<times> 'a CircularBuffer" where
  "apply_op b (PushBack v) = push_back b v"
| "apply_op b (PlaceBack v) = place_back b v"
| "apply_op b Pop = pop b"

fun run :: "'a CircularBuffer \<Rightarrow> 'a op list \<Rightarrow> 'a CircularBuffer option" where
  "run b [] = Some b"
| "run b (x # xs) =
     (case apply_op b x of
        (Some terminated, _) \<Rightarrow> None
      | (_, b') \<Rightarrow> run b' xs)"

subsection \<open>The sequence of live elements\<close>

text \<open>
  The slots that hold the live elements, oldest first: \<open>m_size\<close> slots from \<open>m_head\<close> on,
  around the end of the array.
\<close>

definition live :: "'a CircularBuffer \<Rightarrow> 'a list" where
  "live b =
     map (\<lambda>i. m_c b ! nat ((m_head b + int i) mod m_capacity b)) [0..<nat (m_size b)]"

text \<open>
  The queue the specification describes, on the list of live elements: \<open>push\<close> appends
  and evicts the oldest element of a full queue, \<open>tryPush\<close> appends unless the queue is
  full, \<open>popFront\<close> removes the oldest element.
\<close>

fun spec_op :: "nat \<Rightarrow> 'a list \<Rightarrow> 'a op \<Rightarrow> 'a list" where
  "spec_op n xs (PushBack v) = (if length xs \<ge> n then tl xs @ [v] else xs @ [v])"
| "spec_op n xs (PlaceBack v) = (if length xs \<ge> n then xs else xs @ [v])"
| "spec_op n xs Pop = tl xs"

fun spec_run :: "nat \<Rightarrow> 'a list \<Rightarrow> 'a op list \<Rightarrow> 'a list" where
  "spec_run n xs [] = xs"
| "spec_run n xs (x # ops) = spec_run n (spec_op n xs x) ops"

subsection \<open>The invariant of the counters\<close>

text \<open>
  What holds of the members in every state that the operations reach from a fresh
  buffer of positive capacity: the array has \<open>m_capacity\<close> slots; head and tail are
  indices of the array; the size is at most the capacity; the write cursor is at most
  the capacity, and reaches it, since \<^verbatim>\<open>push_back\<close> wraps the cursor when it is
  entered, not when it leaves; the cursor is \<open>m_size\<close> slots after the head, around
  the array; the tail is the slot before the cursor as soon as one push has happened.
\<close>

definition invar :: "'a CircularBuffer \<Rightarrow> bool" where
  "invar b =
     (0 < m_capacity b \<and> int (length (m_c b)) = m_capacity b
      \<and> 0 \<le> m_head b \<and> m_head b < m_capacity b
      \<and> 0 \<le> m_tail b \<and> m_tail b < m_capacity b
      \<and> 0 \<le> m_size b \<and> m_size b \<le> m_capacity b
      \<and> 0 \<le> m_current b \<and> m_current b \<le> m_capacity b
      \<and> (m_head b + m_size b) mod m_capacity b = m_current b mod m_capacity b
      \<and> (if m_current b = 0 then m_size b = 0 \<and> m_head b = 0 \<and> m_tail b = 0
          else m_tail b = m_current b - 1))"

text \<open>The slot that the next \<^verbatim>\<open>push_back\<close> writes.\<close>

definition write_idx :: "'a CircularBuffer \<Rightarrow> int" where
  "write_idx b = (if m_current b \<ge> m_capacity b then 0 else m_current b)"

text \<open>
  The iterator that \<^verbatim>\<open>begin()\<close> returns for head index \<open>h\<close>, after \<open>j\<close>
  increments over an array of \<open>C\<close> slots.
\<close>

definition it_at :: "int \<Rightarrow> int \<Rightarrow> nat \<Rightarrow> CircularBufferIterator" where
  "it_at h C j =
     \<lparr>it_begin = h, it_cursor = (h + int j) mod C,
      it_done = (j \<noteq> 0 \<and> (h + int j) mod C = h)\<rparr>"

section \<open>Arithmetic of the indices\<close>

text \<open>On a non-negative index and a positive capacity, \<^verbatim>\<open>%\<close> is \<open>mod\<close>.\<close>

lemma smod_nonneg: "0 \<le> a \<Longrightarrow> 0 < b \<Longrightarrow> a smod b = a mod (b::int)"
  by (simp add: smod_int_alt_def sgn_if)

lemma mod_shift_neq:
  fixes x d C :: int
  assumes "0 < d" "d < C"
  shows "(x + d) mod C \<noteq> x mod C"
proof
  assume "(x + d) mod C = x mod C"
  then have "C dvd (x + d) - x" by (simp only: mod_eq_dvd_iff)
  then have "C dvd d" by simp
  with assms show False by (auto dest: zdvd_imp_le)
qed

lemma succ_mod:
  fixes p C :: int
  assumes "0 \<le> p" "p < C"
  shows "(p + 1) mod C = (if p + 1 = C then 0 else p + 1)"
  using assms by simp

lemma tl_map_upt: "tl (map f [0..<n]) = map (\<lambda>i. f (Suc i)) [0..<n - 1]"
proof (cases n)
  case 0
  then show ?thesis by simp
next
  case (Suc k)
  have "tl (map f [0..<Suc k]) = map f [Suc 0..<Suc k]"
    by (simp add: upt_conv_Cons)
  also have "\<dots> = map f (map Suc [0..<k])"
    by (simp only: map_Suc_upt)
  finally show ?thesis using Suc by (simp add: comp_def)
qed

lemma mod_shift_add:
  fixes h C :: int
  shows "((h + 1) mod C + int i) mod C = (h + int (Suc i)) mod C"
proof -
  have "((h + 1) mod C + int i) mod C = ((h + 1) + int i) mod C"
    by (rule mod_add_left_eq)
  also have "(h + 1) + int i = h + int (Suc i)" by simp
  finally show ?thesis .
qed


section \<open>The invariant is kept\<close>

lemma invar_new:
  "0 < cap \<Longrightarrow> int (length c0) = cap \<Longrightarrow> invar (CircularBuffer_new cap c0)"
  by (simp add: invar_def CircularBuffer_new_def)

lemma write_idx_mod: "invar b \<Longrightarrow> write_idx b = m_current b mod m_capacity b"
  by (auto simp: invar_def write_idx_def)

lemma write_idx_range: "invar b \<Longrightarrow> 0 \<le> write_idx b \<and> write_idx b < int (length (m_c b))"
  by (auto simp: invar_def write_idx_def)

lemma push_back_notfull:
  assumes "invar b" "m_size b < m_capacity b"
  shows "push_back b v =
    (None, b\<lparr>m_c := (m_c b)[nat (write_idx b) := v], m_tail := write_idx b,
             m_size := m_size b + 1, m_current := write_idx b + 1\<rparr>)"
proof -
  from assms have "0 \<le> m_current b" "m_current b \<le> m_capacity b" "0 < m_capacity b"
    "int (length (m_c b)) = m_capacity b"
    by (simp_all add: invar_def)
  with assms(2) show ?thesis
    by (auto simp: push_back_def Let_def write_idx_def)
qed

lemma push_back_full:
  assumes "invar b" "m_size b = m_capacity b"
  shows "push_back b v =
    (None, b\<lparr>m_c := (m_c b)[nat (write_idx b) := v], m_head := (m_head b + 1) mod m_capacity b,
             m_tail := write_idx b,
             m_size := m_capacity b, m_current := write_idx b + 1\<rparr>)"
proof -
  from assms have h: "0 \<le> m_head b" "m_head b < m_capacity b" by (simp_all add: invar_def)
  from h have hm: "(m_head b + 1) mod m_capacity b = (if m_head b + 1 \<ge> m_capacity b then 0 else m_head b + 1)"
    using succ_mod [of "m_head b" "m_capacity b"] by auto
  from assms have "0 \<le> m_current b" "m_current b \<le> m_capacity b" "0 < m_capacity b"
    "int (length (m_c b)) = m_capacity b"
    by (simp_all add: invar_def)
  with assms(2) hm show ?thesis
    by (auto simp: push_back_def Let_def write_idx_def)
qed

lemma invar_push_back:
  assumes "invar b"
  shows "fst (push_back b v) = None \<and> invar (snd (push_back b v))"
proof (cases "m_size b < m_capacity b")
  case True
  have w: "write_idx b = m_current b mod m_capacity b" by (rule write_idx_mod [OF assms])
  have r: "0 \<le> write_idx b" "write_idx b < m_capacity b"
    using write_idx_range [OF assms] assms by (simp_all add: invar_def)
  have "(m_head b + (m_size b + 1)) mod m_capacity b = (write_idx b + 1) mod m_capacity b"
  proof -
    have "(m_head b + (m_size b + 1)) mod m_capacity b = ((m_head b + m_size b) mod m_capacity b + 1) mod m_capacity b"
      by (simp add: mod_add_left_eq add.assoc)
    also have "\<dots> = (m_current b mod m_capacity b + 1) mod m_capacity b"
      using assms by (simp add: invar_def)
    finally show ?thesis by (simp add: w)
  qed
  note m = this
  have pb: "push_back b v =
    (None, b\<lparr>m_c := (m_c b)[nat (write_idx b) := v], m_tail := write_idx b,
             m_size := m_size b + 1, m_current := write_idx b + 1\<rparr>)"
    by (rule push_back_notfull [OF assms True])
  from True assms r m show ?thesis
    unfolding pb by (simp add: invar_def)
next
  case False
  with assms have f: "m_size b = m_capacity b" by (simp add: invar_def)
  have w: "write_idx b = m_current b mod m_capacity b" by (rule write_idx_mod [OF assms])
  have r: "0 \<le> write_idx b" "write_idx b < m_capacity b"
    using write_idx_range [OF assms] assms by (simp_all add: invar_def)
  have "((m_head b + 1) mod m_capacity b + m_capacity b) mod m_capacity b = (write_idx b + 1) mod m_capacity b"
  proof -
    have "m_head b mod m_capacity b = m_current b mod m_capacity b"
      using assms f by (simp add: invar_def)
    then have "(m_head b mod m_capacity b + 1) mod m_capacity b = (m_current b mod m_capacity b + 1) mod m_capacity b"
      by simp
    then show ?thesis by (simp add: w mod_add_left_eq)
  qed
  note m = this
  have pb: "push_back b v =
    (None, b\<lparr>m_c := (m_c b)[nat (write_idx b) := v], m_head := (m_head b + 1) mod m_capacity b,
             m_tail := write_idx b,
             m_size := m_capacity b, m_current := write_idx b + 1\<rparr>)"
    by (rule push_back_full [OF assms f])
  from f assms r m show ?thesis
    unfolding pb by (simp add: invar_def)
qed

lemma invar_pop:
  assumes "invar b"
  shows "invar (snd (pop b))"
proof (cases "m_size b \<le> 0")
  case True
  with assms show ?thesis by (simp add: pop_def)
next
  case False
  from assms have h: "0 \<le> m_head b" "m_head b < m_capacity b" by (simp_all add: invar_def)
  from h have hm: "(m_head b + 1) mod m_capacity b = (if m_head b + 1 \<ge> m_capacity b then 0 else m_head b + 1)"
    using succ_mod [of "m_head b" "m_capacity b"] by auto
  have p: "snd (pop b) = b\<lparr>m_head := (m_head b + 1) mod m_capacity b, m_size := m_size b - 1\<rparr>"
    using False by (simp add: pop_def Let_def hm)
  have "((m_head b + 1) mod m_capacity b + (m_size b - 1)) mod m_capacity b = (m_head b + m_size b) mod m_capacity b"
    by (simp add: mod_add_left_eq)
  with assms False h show ?thesis
    unfolding p by (auto simp: invar_def)
qed

lemma invar_place_back:
  assumes "invar b"
  shows "fst (place_back b v) \<noteq> Some terminated \<and> invar (snd (place_back b v))"
  using assms invar_push_back [OF assms, of v]
  by (simp add: place_back_def)

lemma invar_apply_op:
  assumes "invar b"
  shows "fst (apply_op b x) \<noteq> Some terminated \<and> invar (snd (apply_op b x))"
proof (cases x)
  case (PushBack v)
  with invar_push_back [OF assms, of v] show ?thesis by simp
next
  case (PlaceBack v)
  with invar_place_back [OF assms, of v] show ?thesis by simp
next
  case Pop
  with invar_pop [OF assms] show ?thesis by (simp add: pop_def Let_def)
qed

lemma run_step:
  "fst (apply_op b x) \<noteq> Some terminated \<Longrightarrow> run b (x # xs) = run (snd (apply_op b x)) xs"
  by (cases "apply_op b x") (auto split: option.splits error.splits)

lemma invar_run:
  "invar b \<Longrightarrow> \<exists>b'. run b ops = Some b' \<and> invar b'"
proof (induction ops arbitrary: b)
  case Nil
  then show ?case by simp
next
  case (Cons x xs)
  from invar_apply_op [OF Cons.prems, of x]
  have "fst (apply_op b x) \<noteq> Some terminated" and i: "invar (snd (apply_op b x))"
    by simp_all
  then have "run b (x # xs) = run (snd (apply_op b x)) xs"
    by (intro run_step)
  with Cons.IH [OF i] show ?case by simp
qed

section \<open>The buffer implements the queue of the specification\<close>

lemma length_live: "length (live b) = nat (m_size b)"
  by (simp add: live_def)

lemma live_new: "live (CircularBuffer_new cap c0) = []"
  by (simp add: live_def CircularBuffer_new_def)

lemma live_push_back_notfull:
  assumes "invar b" "m_size b < m_capacity b"
  shows "live (snd (push_back b v)) = live b @ [v]"
proof -
  let ?C = "m_capacity b" and ?h = "m_head b" and ?n = "m_size b" and ?w = "write_idx b"
  from assms have C: "0 < ?C" and n: "0 \<le> ?n" and len: "int (length (m_c b)) = ?C"
    by (simp_all add: invar_def)
  have w: "?w = (?h + ?n) mod ?C"
    using assms(1) write_idx_mod [OF assms(1)] by (simp add: invar_def)
  have wr: "0 \<le> ?w" "?w < ?C"
    using write_idx_range [OF assms(1)] len by simp_all
  have other: "(m_c b)[nat ?w := v] ! nat ((?h + int i) mod ?C) = m_c b ! nat ((?h + int i) mod ?C)"
    if "i < nat ?n" for i
  proof -
    from that assms(2) have "0 < ?n - int i" "?n - int i < ?C" by simp_all
    from mod_shift_neq [OF this, of "?h + int i"]
    have neq: "?w \<noteq> (?h + int i) mod ?C" by (simp add: w)
    have nn: "0 \<le> (?h + int i) mod ?C" using C by simp
    have "nat ?w \<noteq> nat ((?h + int i) mod ?C)"
      using eq_nat_nat_iff [OF wr(1) nn] neq by simp
    then show ?thesis by simp
  qed
  have last: "(m_c b)[nat ?w := v] ! nat ((?h + int (nat ?n)) mod ?C) = v"
    using n wr len by (simp add: w [symmetric])
  have "live (snd (push_back b v))
      = map (\<lambda>i. (m_c b)[nat ?w := v] ! nat ((?h + int i) mod ?C)) [0..<Suc (nat ?n)]"
    using n by (simp add: push_back_notfull [OF assms] live_def nat_add_distrib)
  also have "\<dots> = map (\<lambda>i. (m_c b)[nat ?w := v] ! nat ((?h + int i) mod ?C)) [0..<nat ?n] @ [v]"
    using last by simp
  also have "map (\<lambda>i. (m_c b)[nat ?w := v] ! nat ((?h + int i) mod ?C)) [0..<nat ?n] = live b"
    unfolding live_def by (rule map_cong [OF refl]) (simp add: other)
  finally show ?thesis .
qed

lemma live_push_back_full:
  assumes "invar b" "m_size b = m_capacity b"
  shows "live (snd (push_back b v)) = tl (live b) @ [v]"
proof -
  let ?C = "m_capacity b" and ?h = "m_head b" and ?w = "write_idx b"
  let ?c' = "(m_c b)[nat ?h := v]"
  from assms have C: "0 < ?C" and len: "int (length (m_c b)) = ?C"
    and h: "0 \<le> ?h" "?h < ?C"
    by (simp_all add: invar_def)
  have "?w = (?h + ?C) mod ?C"
    using assms write_idx_mod [OF assms(1)] by (simp add: invar_def)
  with h have w: "?w = ?h" by simp
  obtain k where k: "nat ?C = Suc k" using C by (cases "nat ?C") simp_all
  then have Ck: "?C = int (Suc k)" by linarith
  have other: "?c' ! nat ((?h + int (Suc i)) mod ?C) = m_c b ! nat ((?h + int (Suc i)) mod ?C)"
    if "i < k" for i
  proof -
    from that Ck have "0 < int (Suc i)" "int (Suc i) < ?C" by simp_all
    from mod_shift_neq [OF this, of ?h] h
    have neq: "?h \<noteq> (?h + int (Suc i)) mod ?C" by simp
    have nn: "0 \<le> (?h + int (Suc i)) mod ?C" using C by simp
    have "nat ?h \<noteq> nat ((?h + int (Suc i)) mod ?C)"
      using eq_nat_nat_iff [OF h(1) nn] neq by simp
    then show ?thesis by simp
  qed
  have "(?h + ?C) mod ?C = ?h"
    using h by simp
  then have "(?h + int (Suc k)) mod ?C = ?h"
    by (simp only: Ck [symmetric])
  then have last: "?c' ! nat ((?h + int (Suc k)) mod ?C) = v"
    using h len by simp
  have "live (snd (push_back b v))
      = map (\<lambda>i. ?c' ! nat (((?h + 1) mod ?C + int i) mod ?C)) [0..<nat ?C]"
    by (simp add: push_back_full [OF assms] live_def w)
  also have "\<dots> = map (\<lambda>i. ?c' ! nat ((?h + int (Suc i)) mod ?C)) [0..<Suc k]"
    by (simp only: mod_shift_add k)
  also have "\<dots> = map (\<lambda>i. ?c' ! nat ((?h + int (Suc i)) mod ?C)) [0..<k] @ [v]"
    using last by (simp only: upt_Suc_append [OF le0] map_append list.map)
  also have "map (\<lambda>i. ?c' ! nat ((?h + int (Suc i)) mod ?C)) [0..<k]
      = map (\<lambda>i. m_c b ! nat ((?h + int (Suc i)) mod ?C)) [0..<k]"
    by (rule map_cong [OF refl]) (simp only: other atLeastLessThan_iff set_upt)
  also have "\<dots> = map (\<lambda>i. m_c b ! nat ((?h + int (Suc i)) mod ?C)) [0..<nat ?C - 1]"
    by (simp only: k diff_Suc_1)
  also have "\<dots> = tl (map (\<lambda>i. m_c b ! nat ((?h + int i) mod ?C)) [0..<nat ?C])"
    by (rule tl_map_upt [symmetric])
  also have "\<dots> = tl (live b)"
    by (simp only: live_def assms(2))
  finally show ?thesis .
qed

lemma live_push_back:
  assumes "invar b"
  shows "live (snd (push_back b v)) = spec_op (nat (m_capacity b)) (live b) (PushBack v)"
proof (cases "m_size b < m_capacity b")
  case True
  from assms have "0 < m_capacity b" by (simp add: invar_def)
  with True have "\<not> nat (m_capacity b) \<le> nat (m_size b)" by linarith
  with live_push_back_notfull [OF assms True, of v] show ?thesis
    by (simp add: length_live)
next
  case False
  with assms have f: "m_size b = m_capacity b" by (simp add: invar_def)
  with live_push_back_full [OF assms f, of v] show ?thesis
    by (simp add: length_live)
qed

lemma pop_nonempty:
  assumes "invar b" "0 < m_size b"
  shows "pop b = (None, b\<lparr>m_head := (m_head b + 1) mod m_capacity b, m_size := m_size b - 1\<rparr>)"
proof -
  from assms have h: "0 \<le> m_head b" "m_head b < m_capacity b" by (simp_all add: invar_def)
  from h have hm: "(m_head b + 1) mod m_capacity b = (if m_head b + 1 \<ge> m_capacity b then 0 else m_head b + 1)"
    using succ_mod [of "m_head b" "m_capacity b"] by auto
  from assms(2) show ?thesis by (simp add: pop_def Let_def hm)
qed

lemma live_pop:
  assumes "invar b"
  shows "live (snd (pop b)) = spec_op (nat (m_capacity b)) (live b) Pop"
proof (cases "0 < m_size b")
  case True
  let ?C = "m_capacity b" and ?h = "m_head b"
  have n: "nat (m_size b - 1) = nat (m_size b) - 1" by simp
  have "live (snd (pop b))
      = map (\<lambda>i. m_c b ! nat (((?h + 1) mod ?C + int i) mod ?C)) [0..<nat (m_size b - 1)]"
    by (simp add: pop_nonempty [OF assms True] live_def)
  also have "\<dots> = map (\<lambda>i. m_c b ! nat ((?h + int (Suc i)) mod ?C)) [0..<nat (m_size b) - 1]"
    by (simp only: mod_shift_add n)
  also have "\<dots> = tl (map (\<lambda>i. m_c b ! nat ((?h + int i) mod ?C)) [0..<nat (m_size b)])"
    by (rule tl_map_upt [symmetric])
  finally show ?thesis by (simp add: live_def)
next
  case False
  then show ?thesis by (simp add: pop_def live_def)
qed

lemma live_place_back:
  assumes "invar b"
  shows "live (snd (place_back b v)) = spec_op (nat (m_capacity b)) (live b) (PlaceBack v)"
proof (cases "full b")
  case True
  then have "nat (m_capacity b) \<le> nat (m_size b)" by (simp add: full_def size_buf_def)
  with True show ?thesis
    by (simp add: place_back_def length_live)
next
  case False
  then have nf: "m_size b < m_capacity b" by (simp add: full_def size_buf_def)
  from assms have "0 < m_capacity b" by (simp add: invar_def)
  with nf have "\<not> nat (m_capacity b) \<le> nat (m_size b)" by linarith
  with False live_push_back_notfull [OF assms nf, of v] show ?thesis
    by (simp add: place_back_def length_live)
qed

lemma live_apply_op:
  "invar b \<Longrightarrow> live (snd (apply_op b x)) = spec_op (nat (m_capacity b)) (live b) x"
  by (cases x) (simp_all add: live_push_back live_place_back live_pop)

lemma capacity_apply_op: "m_capacity (snd (apply_op b x)) = m_capacity b"
  by (cases x) (simp_all add: push_back_def place_back_def pop_def Let_def)

lemma run_Some_step:
  assumes "invar b"
  shows "run b (x # xs) = run (snd (apply_op b x)) xs"
  using invar_apply_op [OF assms, of x] by (intro run_step) simp

lemma live_run:
  "invar b \<Longrightarrow> run b ops = Some b' \<Longrightarrow>
     live b' = spec_run (nat (m_capacity b)) (live b) ops \<and> m_capacity b' = m_capacity b \<and> invar b'"
proof (induction ops arbitrary: b)
  case Nil
  then show ?case by simp
next
  case (Cons x xs)
  from invar_apply_op [OF Cons.prems(1), of x] have i: "invar (snd (apply_op b x))" by simp
  from Cons.prems have r: "run (snd (apply_op b x)) xs = Some b'"
    by (simp only: run_Some_step)
  from Cons.IH [OF i r] show ?case
    by (simp add: capacity_apply_op live_apply_op [OF Cons.prems(1)])
qed

text \<open>Every state that a sequence of operations reaches from a fresh buffer.\<close>

lemma reach:
  assumes "0 < cap" "int (length c0) = cap"
  shows "\<exists>b. run (CircularBuffer_new cap c0) ops = Some b \<and> invar b \<and> m_capacity b = cap
            \<and> live b = spec_run (nat cap) [] ops"
proof -
  have i: "invar (CircularBuffer_new cap c0)" by (rule invar_new [OF assms])
  from invar_run [OF i, of ops] obtain b where b: "run (CircularBuffer_new cap c0) ops = Some b"
    by blast
  from live_run [OF i b] show ?thesis
    using b by (simp add: live_new) (simp add: CircularBuffer_new_def)
qed

lemma reach_unique:
  assumes "0 < cap" "int (length c0) = cap" "run (CircularBuffer_new cap c0) ops = Some b"
  shows "invar b \<and> m_capacity b = cap \<and> live b = spec_run (nat cap) [] ops"
  using reach [OF assms(1,2), of ops] assms(3) by auto

section \<open>The ranges of the counters\<close>

text \<open>
  C7, as the code has it. After the constructor and after every \<^verbatim>\<open>push_back\<close>,
  \<^verbatim>\<open>place_back\<close> and \<^verbatim>\<open>pop\<close> of any finite sequence of calls on a fresh buffer
  of capacity \<open>cap \<ge> 1\<close>, no call has ended the program and the counters satisfy
  \<open>0 \<le> head < cap\<close>, \<open>0 \<le> tail < cap\<close>, \<open>0 \<le> size \<le> cap\<close> and
  \<open>0 \<le> cursor \<le> cap\<close>: the write cursor may be equal to the capacity.
\<close>

theorem counters_in_range:
  assumes "0 < cap" and "int (length c0) = cap"
  shows "\<exists>b. run (CircularBuffer_new cap c0) ops = Some b
           \<and> 0 \<le> m_head b \<and> m_head b < cap
           \<and> 0 \<le> m_tail b \<and> m_tail b < cap
           \<and> 0 \<le> m_current b \<and> m_current b \<le> cap
           \<and> 0 \<le> m_size b \<and> m_size b \<le> cap
           \<and> m_capacity b = cap"
proof -
  from reach [OF assms, of ops] obtain b
    where "run (CircularBuffer_new cap c0) ops = Some b" "invar b" "m_capacity b = cap"
    by blast
  then show ?thesis by (auto simp: invar_def)
qed

theorem counters_in_range_witness:
  "(0::int) < 2 \<and> int (length [0, 0::nat]) = 2
   \<and> (\<exists>b. run (CircularBuffer_new 2 [0, 0::nat]) [PushBack 1, PushBack 2, Pop, PlaceBack 3] = Some b
        \<and> m_head b < 2 \<and> m_tail b < 2 \<and> m_current b \<le> 2 \<and> m_size b \<le> 2)"
  using counters_in_range [of 2 "[0, 0::nat]" "[PushBack 1, PushBack 2, Pop, PlaceBack 3]"]
  by auto

text \<open>
  C7 as the specification words it asks for \<open>cursor < Capacity\<close>. Two pushes into a
  fresh buffer of capacity 2 leave the cursor at 2: \<^verbatim>\<open>push_back\<close> resets a cursor
  that has reached the capacity when the next call enters, not before it returns.
\<close>

theorem cursor_counterexample:
  "run (CircularBuffer_new 2 [0, 0::nat]) [PushBack 1, PushBack 2]
     = Some \<lparr>m_c = [1, 2], m_head = 0, m_tail = 1, m_size = 2, m_current = 2, m_capacity = 2\<rparr>
   \<and> \<not> m_current \<lparr>m_c = [1, 2::nat], m_head = 0, m_tail = 1, m_size = 2, m_current = 2,
                   m_capacity = 2\<rparr> < 2"
  by (simp add: CircularBuffer_new_def push_back_def Let_def)

section \<open>The bounded insertion\<close>

text \<open>
  C4. In every state reached from a fresh buffer, \<^verbatim>\<open>place_back\<close> throws
  \<^verbatim>\<open>overflow_error\<close> exactly when \<^verbatim>\<open>size()\<close> is the capacity, and then the whole
  state (container, head, tail, cursor, size) is as before the call; when \<^verbatim>\<open>size()\<close>
  is below the capacity it throws nothing and returns the state that \<^verbatim>\<open>push_back\<close>
  of the same value returns.
\<close>

theorem place_back_overflow:
  assumes "0 < cap" and "int (length c0) = cap"
    and "run (CircularBuffer_new cap c0) ops = Some b"
  shows "((fst (place_back b v) = Some overflow_error) = (size_buf b = cap))
       \<and> (size_buf b = cap \<longrightarrow> place_back b v = (Some overflow_error, b))
       \<and> (size_buf b < cap \<longrightarrow> place_back b v = push_back b v \<and> fst (place_back b v) = None)"
proof -
  from reach_unique [OF assms] have i: "invar b" and c: "m_capacity b = cap" by simp_all
  from i c have le: "m_size b \<le> cap" by (simp add: invar_def)
  from invar_push_back [OF i, of v] have p: "fst (push_back b v) = None" by simp
  show ?thesis
  proof (cases "m_size b = cap")
    case True
    with c show ?thesis by (simp add: place_back_def full_def size_buf_def)
  next
    case False
    with le have "m_size b < cap" by simp
    with c p show ?thesis by (simp add: place_back_def full_def size_buf_def)
  qed
qed

theorem place_back_overflow_witness:
  "(0::int) < 2 \<and> int (length [0, 0::nat]) = 2
   \<and> run (CircularBuffer_new 2 [0, 0::nat]) [PushBack 1, PushBack 2]
       = Some \<lparr>m_c = [1, 2], m_head = 0, m_tail = 1, m_size = 2, m_current = 2, m_capacity = 2\<rparr>
   \<and> size_buf \<lparr>m_c = [1, 2::nat], m_head = 0, m_tail = 1, m_size = 2, m_current = 2,
               m_capacity = 2\<rparr> = 2
   \<and> place_back \<lparr>m_c = [1, 2::nat], m_head = 0, m_tail = 1, m_size = 2, m_current = 2,
                 m_capacity = 2\<rparr> 9
       = (Some overflow_error,
          \<lparr>m_c = [1, 2], m_head = 0, m_tail = 1, m_size = 2, m_current = 2, m_capacity = 2\<rparr>)
   \<and> run (CircularBuffer_new 2 [0, 0::nat]) [PushBack 1]
       = Some \<lparr>m_c = [1, 0], m_head = 0, m_tail = 0, m_size = 1, m_current = 1, m_capacity = 2\<rparr>
   \<and> size_buf \<lparr>m_c = [1, 0::nat], m_head = 0, m_tail = 0, m_size = 1, m_current = 1,
               m_capacity = 2\<rparr> < 2
   \<and> place_back \<lparr>m_c = [1, 0::nat], m_head = 0, m_tail = 0, m_size = 1, m_current = 1,
                 m_capacity = 2\<rparr> 9
       = (None,
          \<lparr>m_c = [1, 9], m_head = 0, m_tail = 1, m_size = 2, m_current = 2, m_capacity = 2\<rparr>)"
  using place_back_overflow [of 2 "[0, 0::nat]" "[PushBack 1, PushBack 2]"
      "\<lparr>m_c = [1, 2], m_head = 0, m_tail = 1, m_size = 2, m_current = 2, m_capacity = 2\<rparr>" 9]
    place_back_overflow [of 2 "[0, 0::nat]" "[PushBack 1]"
      "\<lparr>m_c = [1, 0], m_head = 0, m_tail = 0, m_size = 1, m_current = 1, m_capacity = 2\<rparr>" 9]
  by (simp add: CircularBuffer_new_def push_back_def Let_def size_buf_def)

section \<open>Removing the oldest element\<close>

text \<open>
  C5. In every state reached from a fresh buffer, \<^verbatim>\<open>pop\<close> throws
  \<^verbatim>\<open>underflow_error\<close> exactly when \<^verbatim>\<open>size()\<close> is 0. When \<^verbatim>\<open>size() > 0\<close> it
  throws nothing, moves the head one slot on, from the last slot to slot 0, and takes 1
  off the size; when the size was at least 2, \<^verbatim>\<open>head()\<close> then returns the
  second-oldest element of the state before, which is the second element of the queue
  of the specification.
\<close>

theorem pop_underflow:
  assumes "0 < cap" and "int (length c0) = cap"
    and "run (CircularBuffer_new cap c0) ops = Some b"
  shows "((fst (pop b) = Some underflow_error) = (size_buf b = 0))
       \<and> (size_buf b > 0 \<longrightarrow>
            fst (pop b) = None
          \<and> m_head (snd (pop b)) = (if m_head b = cap - 1 then 0 else m_head b + 1)
          \<and> size_buf (snd (pop b)) = size_buf b - 1)
       \<and> (size_buf b \<ge> 2 \<longrightarrow>
            head (snd (pop b)) = Inr (live b ! 1)
          \<and> live b ! 1 = spec_run (nat cap) [] ops ! 1)"
proof -
  from reach_unique [OF assms] have i: "invar b" and c: "m_capacity b = cap"
    and l: "live b = spec_run (nat cap) [] ops" by simp_all
  from i c have n: "0 \<le> m_size b" and h: "0 \<le> m_head b" "m_head b < cap"
    and len: "int (length (m_c b)) = cap"
    by (simp_all add: invar_def)
  show ?thesis
  proof (cases "0 < m_size b")
    case False
    with n show ?thesis by (simp add: pop_def size_buf_def)
  next
    case True
    note p = pop_nonempty [OF i True]
    from h have hm: "(m_head b + 1) mod cap = (if m_head b = cap - 1 then 0 else m_head b + 1)"
      using succ_mod [of "m_head b" cap] by auto
    have r: "0 \<le> (m_head b + 1) mod cap" "(m_head b + 1) mod cap < cap"
      using assms(1) by simp_all
    have second: "head (snd (pop b)) = Inr (live b ! 1)" if "2 \<le> m_size b"
    proof -
      from that have "1 < nat (m_size b)" by simp
      then have "live b ! 1 = m_c b ! nat ((m_head b + 1) mod cap)"
        by (simp add: live_def c)
      moreover have "head (snd (pop b)) = Inr (m_c b ! nat ((m_head b + 1) mod cap))"
        using r len by (simp add: p head_def array_at_def c)
      ultimately show ?thesis by simp
    qed
    from True have "fst (pop b) = None" "size_buf (snd (pop b)) = size_buf b - 1"
      "m_head (snd (pop b)) = (if m_head b = cap - 1 then 0 else m_head b + 1)"
      by (simp_all add: p size_buf_def c hm)
    with True second l show ?thesis by (simp add: size_buf_def)
  qed
qed

theorem pop_underflow_witness:
  "(0::int) < 3 \<and> int (length [0, 0, 0::nat]) = 3
   \<and> run (CircularBuffer_new 3 [0, 0, 0::nat]) [PushBack 1, PushBack 2, PushBack 3, PushBack 4]
       = Some \<lparr>m_c = [4, 2, 3], m_head = 1, m_tail = 0, m_size = 3, m_current = 1, m_capacity = 3\<rparr>
   \<and> size_buf \<lparr>m_c = [4, 2, 3::nat], m_head = 1, m_tail = 0, m_size = 3, m_current = 1,
               m_capacity = 3\<rparr> \<ge> 2
   \<and> pop \<lparr>m_c = [4, 2, 3::nat], m_head = 1, m_tail = 0, m_size = 3, m_current = 1,
          m_capacity = 3\<rparr>
       = (None, \<lparr>m_c = [4, 2, 3], m_head = 2, m_tail = 0, m_size = 2, m_current = 1,
                 m_capacity = 3\<rparr>)
   \<and> head \<lparr>m_c = [4, 2, 3::nat], m_head = 2, m_tail = 0, m_size = 2, m_current = 1,
           m_capacity = 3\<rparr> = Inr 3
   \<and> spec_run 3 [] [PushBack 1, PushBack 2, PushBack 3, PushBack (4::nat)] ! 1 = 3"
  using pop_underflow [of 3 "[0, 0, 0::nat]" "[PushBack 1, PushBack 2, PushBack 3, PushBack 4]"
      "\<lparr>m_c = [4, 2, 3], m_head = 1, m_tail = 0, m_size = 3, m_current = 1, m_capacity = 3\<rparr>"]
  by (simp add: CircularBuffer_new_def push_back_def pop_def Let_def size_buf_def head_def
      array_at_def)

section \<open>The accessors\<close>

text \<open>
  C6, as the code has it. In every state reached from a fresh buffer, empty or not,
  \<^verbatim>\<open>head()\<close> and \<^verbatim>\<open>tail()\<close> return the slots at the head and the tail index and
  never throw: the only check is the bounds check of \<^verbatim>\<open>at\<close>, and both indices are
  always inside the array. When \<^verbatim>\<open>size() > 0\<close> the two slots are the oldest and the
  newest live element.
\<close>

theorem head_tail_never_fail:
  assumes "0 < cap" and "int (length c0) = cap"
    and "run (CircularBuffer_new cap c0) ops = Some b"
  shows "head b = Inr (m_c b ! nat (m_head b))
       \<and> tail b = Inr (m_c b ! nat (m_tail b))
       \<and> (size_buf b > 0 \<longrightarrow> head b = Inr (hd (live b)) \<and> tail b = Inr (last (live b)))"
proof -
  from reach_unique [OF assms] have i: "invar b" and c: "m_capacity b = cap" by simp_all
  from i c have h: "0 \<le> m_head b" "m_head b < cap" and t: "0 \<le> m_tail b" "m_tail b < cap"
    and len: "int (length (m_c b)) = cap"
    by (simp_all add: invar_def)
  have hd: "head b = Inr (m_c b ! nat (m_head b))"
    using h len by (simp add: head_def array_at_def)
  have tl: "tail b = Inr (m_c b ! nat (m_tail b))"
    using t len by (simp add: tail_def array_at_def)
  have "hd (live b) = m_c b ! nat (m_head b) \<and> last (live b) = m_c b ! nat (m_tail b)"
    if pos: "0 < m_size b"
  proof -
    obtain k where k: "nat (m_size b) = Suc k" using pos by (cases "nat (m_size b)") simp_all
    then have nk: "m_size b = int k + 1" by linarith
    from pos i have cur: "m_current b \<noteq> 0" by (auto simp: invar_def)
    with i c have tc: "m_tail b = m_current b - 1" and cr: "0 \<le> m_current b" "m_current b \<le> cap"
      and eq: "(m_head b + m_size b) mod cap = m_current b mod cap"
      by (simp_all add: invar_def)
    have "(m_head b + int k) mod cap = (m_head b + m_size b - 1) mod cap"
      by (simp add: nk)
    also have "\<dots> = ((m_head b + m_size b) mod cap - 1) mod cap"
      by (simp only: mod_diff_left_eq)
    also have "\<dots> = (m_current b - 1) mod cap"
      by (simp only: eq mod_diff_left_eq)
    also have "\<dots> = m_tail b"
      using tc t by simp
    finally have la: "(m_head b + int k) mod cap = m_tail b" .
    have "live b = map (\<lambda>i. m_c b ! nat ((m_head b + int i) mod cap)) [0..<k]
                   @ [m_c b ! nat ((m_head b + int k) mod cap)]"
      by (simp add: live_def k c)
    then have "last (live b) = m_c b ! nat (m_tail b)"
      by (simp add: la)
    moreover have "hd (live b) = m_c b ! nat (m_head b)"
      using h by (simp add: live_def k c upt_conv_Cons del: upt_Suc)
    ultimately show ?thesis by simp
  qed
  with hd tl show ?thesis by (simp add: size_buf_def)
qed

theorem head_tail_never_fail_witness:
  "(0::int) < 3 \<and> int (length [0, 0, 0::nat]) = 3
   \<and> run (CircularBuffer_new 3 [0, 0, 0::nat]) [PushBack 1, PushBack 2]
       = Some \<lparr>m_c = [1, 2, 0], m_head = 0, m_tail = 1, m_size = 2, m_current = 2,
               m_capacity = 3\<rparr>
   \<and> size_buf \<lparr>m_c = [1, 2, 0::nat], m_head = 0, m_tail = 1, m_size = 2, m_current = 2,
               m_capacity = 3\<rparr> > 0
   \<and> head \<lparr>m_c = [1, 2, 0::nat], m_head = 0, m_tail = 1, m_size = 2, m_current = 2,
           m_capacity = 3\<rparr> = Inr 1
   \<and> tail \<lparr>m_c = [1, 2, 0::nat], m_head = 0, m_tail = 1, m_size = 2, m_current = 2,
           m_capacity = 3\<rparr> = Inr 2"
  using head_tail_never_fail [of 3 "[0, 0, 0::nat]" "[PushBack 1, PushBack 2]"
      "\<lparr>m_c = [1, 2, 0], m_head = 0, m_tail = 1, m_size = 2, m_current = 2, m_capacity = 3\<rparr>"]
  by (simp add: CircularBuffer_new_def push_back_def Let_def size_buf_def)

text \<open>
  C6 as the specification words it asks \<^verbatim>\<open>head()\<close> and \<^verbatim>\<open>tail()\<close> to fail on an
  empty buffer. On a fresh buffer of capacity 2, with \<^verbatim>\<open>size() = 0\<close>, both return
  what slot 0 holds.
\<close>

theorem head_empty_counterexample:
  "size_buf (CircularBuffer_new 2 [7, 8::nat]) = 0
   \<and> head (CircularBuffer_new 2 [7, 8::nat]) = Inr 7
   \<and> tail (CircularBuffer_new 2 [7, 8::nat]) = Inr 7"
  by (simp add: CircularBuffer_new_def size_buf_def head_def tail_def array_at_def)

section \<open>What a successful pop leaves alone\<close>

text \<open>
  C10. A \<^verbatim>\<open>pop\<close> on a buffer with \<^verbatim>\<open>size() > 0\<close> succeeds and changes nothing but the
  head index and the size counter: the container, the tail index, the write cursor
  (and the capacity) are as before.
\<close>

theorem pop_frame:
  assumes "size_buf b > 0"
  shows "fst (pop b) = None
       \<and> m_c (snd (pop b)) = m_c b
       \<and> m_tail (snd (pop b)) = m_tail b
       \<and> m_current (snd (pop b)) = m_current b
       \<and> m_capacity (snd (pop b)) = m_capacity b
       \<and> (\<exists>h s. snd (pop b) = b\<lparr>m_head := h, m_size := s\<rparr>)"
proof -
  from assms have pos: "\<not> m_size b \<le> 0"
    by (simp add: size_buf_def)
  show ?thesis
  proof (cases "m_head b + 1 \<ge> m_capacity b")
    case True
    with pos have "snd (pop b) = b\<lparr>m_head := 0, m_size := m_size b - 1\<rparr>" "fst (pop b) = None"
      by (simp_all add: pop_def Let_def)
    then show ?thesis by auto
  next
    case False
    with pos have "snd (pop b) = b\<lparr>m_head := m_head b + 1, m_size := m_size b - 1\<rparr>"
      "fst (pop b) = None"
      by (simp_all add: pop_def Let_def)
    then show ?thesis by auto
  qed
qed

theorem pop_frame_witness:
  "size_buf \<lparr>m_c = [10, 20, 30 :: nat], m_head = 2, m_tail = 0, m_size = 2,
             m_current = 1, m_capacity = 3\<rparr> > 0
   \<and> pop \<lparr>m_c = [10, 20, 30 :: nat], m_head = 2, m_tail = 0, m_size = 2,
          m_current = 1, m_capacity = 3\<rparr>
     = (None, \<lparr>m_c = [10, 20, 30], m_head = 0, m_tail = 0, m_size = 1,
               m_current = 1, m_capacity = 3\<rparr>)"
  using pop_frame [of "\<lparr>m_c = [10, 20, 30 :: nat], m_head = 2, m_tail = 0, m_size = 2,
                       m_current = 1, m_capacity = 3\<rparr>"]
  by (simp add: size_buf_def pop_def Let_def)

section \<open>Iterator comparison\<close>

text \<open>
  C9. \<^verbatim>\<open>operator==\<close> is true when both iterators are done, true when neither is done
  and the two cursors are at the same position, and false in every other case, so
  whenever exactly one of them is done; \<^verbatim>\<open>operator!=\<close> is its negation.
\<close>

theorem op_eq_cases:
  "op_eq a b = ((it_done a \<and> it_done b) \<or> (\<not> it_done a \<and> \<not> it_done b \<and> it_cursor a = it_cursor b))
   \<and> (it_done a \<noteq> it_done b \<longrightarrow> \<not> op_eq a b)
   \<and> op_neq a b = (\<not> op_eq a b)"
  by (auto simp: op_eq_def op_neq_def)

theorem op_eq_cases_witness:
  "it_done \<lparr>it_begin = 0, it_cursor = 1, it_done = True\<rparr>
     \<noteq> it_done \<lparr>it_begin = 0, it_cursor = 1, it_done = False\<rparr>
   \<and> \<not> op_eq \<lparr>it_begin = 0, it_cursor = 1, it_done = True\<rparr>
            \<lparr>it_begin = 0, it_cursor = 1, it_done = False\<rparr>
   \<and> op_neq \<lparr>it_begin = 0, it_cursor = 1, it_done = True\<rparr>
            \<lparr>it_begin = 0, it_cursor = 1, it_done = False\<rparr>"
  using op_eq_cases [of "\<lparr>it_begin = 0, it_cursor = 1, it_done = True\<rparr>"
                        "\<lparr>it_begin = 0, it_cursor = 1, it_done = False\<rparr>"]
  by simp

section \<open>The offset of end()\<close>

text \<open>
  C8, as the code has it. For a capacity above 1 and a tail index inside the array, the
  offset that \<^verbatim>\<open>end()\<close> computes, \<^verbatim>\<open>_tail + (1 % _capacity)\<close>, differs from
  \<^verbatim>\<open>(_tail + 1) % _capacity\<close> exactly when the tail is the last slot: there the code
  computes the capacity where the wrapped value is 0. At every other tail index the two
  agree.
\<close>

theorem end_offset_differs_iff:
  assumes "1 < cap" and "0 \<le> t" and "t < cap"
  shows "((end_offset t cap \<noteq> (t + 1) smod cap) = (t = cap - 1))
       \<and> (t = cap - 1 \<longrightarrow> end_offset t cap = cap \<and> (t + 1) smod cap = 0)
       \<and> (t \<noteq> cap - 1 \<longrightarrow> end_offset t cap = t + 1 \<and> (t + 1) smod cap = t + 1)"
proof -
  from assms have e: "end_offset t cap = t + 1"
    by (simp add: end_offset_def smod_nonneg)
  from assms have m: "(t + 1) smod cap = (t + 1) mod cap"
    by (simp add: smod_nonneg)
  show ?thesis
  proof (cases "t = cap - 1")
    case True
    with assms e m show ?thesis by simp
  next
    case False
    with assms have "t + 1 < cap" by simp
    with assms have "(t + 1) mod cap = t + 1" by simp
    with False e m show ?thesis by simp
  qed
qed

theorem end_offset_differs_iff_witness:
  "(1::int) < 3 \<and> (0::int) \<le> 2 \<and> (2::int) < 3 \<and> (2::int) = 3 - 1
   \<and> end_offset 2 3 = 3 \<and> (2 + 1) smod (3::int) = 0
   \<and> end_offset 2 3 \<noteq> (2 + 1) smod 3"
  using end_offset_differs_iff [of 3 2]
  by simp

text \<open>
  C8 as the specification words it says that the two differ when the tail is not the
  last slot. At capacity 3 and tail index 0, not the last slot, \<^verbatim>\<open>end()\<close> computes
  1, which is \<^verbatim>\<open>(0 + 1) % 3\<close>.
\<close>

theorem end_offset_counterexample:
  "(1::int) < 3 \<and> (0::int) \<le> 0 \<and> (0::int) < 3 \<and> (0::int) \<noteq> 3 - 1
   \<and> end_offset 0 3 = (0 + 1) smod 3"
  by (simp add: end_offset_def smod_int_alt_def)

section \<open>The traversal\<close>

lemma op_inc_it_at:
  assumes "0 < C" and "int (length buf) = C"
  shows "op_inc buf (it_at h C j) = it_at h C (Suc j)"
proof -
  let ?p = "(h + int j) mod C"
  from assms(1) have p: "0 \<le> ?p" "?p < C" by simp_all
  have e: "h + int j + 1 = h + int (Suc j)" by simp
  have "(?p + 1) mod C = (h + int j + 1) mod C"
    by (rule mod_add_left_eq)
  then have "(?p + 1) mod C = (h + int (Suc j)) mod C"
    by (simp only: e)
  with succ_mod [OF p, symmetric]
  have nxt: "(if ?p + 1 = C then 0 else ?p + 1) = (h + int (Suc j)) mod C"
    by (rule trans)
  show ?thesis
  proof (cases "?p + 1 = C")
    case True
    with nxt have "(h + int (Suc j)) mod C = 0" by simp
    with True assms(2) show ?thesis
      by (simp add: op_inc_def it_at_def Let_def del: of_nat_Suc)
  next
    case False
    with nxt have "(h + int (Suc j)) mod C = ?p + 1" by simp
    with False assms(2) show ?thesis
      by (simp add: op_inc_def it_at_def Let_def del: of_nat_Suc)
  qed
qed

lemma op_deref_it_at:
  assumes "0 < C" and "int (length buf) = C"
  shows "op_deref buf (it_at h C j) = Inr (buf ! nat ((h + int j) mod C))"
  using assms by (simp add: op_deref_def it_at_def)

lemma traverse_reaches:
  assumes "0 < C" and "int (length buf) = C"
    and "\<And>j. i \<le> j \<Longrightarrow> j < n \<Longrightarrow> op_neq (it_at h C j) e"
    and "op_eq (it_at h C n) e"
    and "d = n - i" and "i \<le> n"
  shows "traverse (Suc d) buf (it_at h C i) e
           = Some (Inr (map (\<lambda>j. buf ! nat ((h + int j) mod C)) [i..<n]))"
  using assms(3,5,6)
proof (induction d arbitrary: i)
  case 0
  then have "i = n" by simp
  with assms(4) show ?case by (simp add: op_neq_def)
next
  case (Suc d)
  then have lt: "i < n" and d: "d = n - Suc i" and le: "Suc i \<le> n" by simp_all
  from Suc.prems(1) [OF le_refl lt] have neq: "op_neq (it_at h C i) e" .
  have "traverse (Suc d) buf (it_at h C (Suc i)) e
           = Some (Inr (map (\<lambda>j. buf ! nat ((h + int j) mod C)) [Suc i..<n]))"
    by (rule Suc.IH [OF _ d le]) (simp add: Suc.prems(1))
  then have "traverse (Suc (Suc d)) buf (it_at h C i) e
           = Some (Inr (buf ! nat ((h + int i) mod C)
                        # map (\<lambda>j. buf ! nat ((h + int j) mod C)) [Suc i..<n]))"
    using neq by (simp add: op_deref_it_at [OF assms(1,2)] op_inc_it_at [OF assms(1,2)])
  with lt show ?case by (simp add: upt_conv_Cons)
qed

lemma traverse_diverges:
  assumes "0 < C" and "int (length buf) = C"
    and "\<And>j. op_neq (it_at h C j) e"
  shows "traverse k buf (it_at h C i) e = None"
proof (induction k arbitrary: i)
  case 0
  show ?case by simp
next
  case (Suc k)
  from Suc [of "Suc i"] assms(3) [of i] show ?case
    by (simp add: op_deref_it_at [OF assms(1,2)] op_inc_it_at [OF assms(1,2)])
qed

lemma traverse_more_fuel:
  "traverse k buf it e = Some r \<Longrightarrow> traverse (k + m) buf it e = Some r"
proof (induction k arbitrary: it r)
  case 0
  then show ?case by simp
next
  case (Suc k)
  show ?case
  proof (cases "op_neq it e")
    case False
    with Suc.prems show ?thesis by simp
  next
    case True
    show ?thesis
    proof (cases "op_deref buf it")
      case (Inl err)
      with True Suc.prems show ?thesis by simp
    next
      case (Inr x)
      with True Suc.prems obtain r' where r': "traverse k buf (op_inc buf it) e = Some r'"
        by (cases "traverse k buf (op_inc buf it) e") simp_all
      from Suc.IH [OF r'] have "traverse (k + m) buf (op_inc buf it) e = Some r'" .
      with True Inr r' Suc.prems show ?thesis by simp
    qed
  qed
qed

lemma traverse_fuel_unique:
  assumes "traverse k buf it e = Some r" and "traverse k' buf it e = Some r'"
  shows "r = r'"
proof -
  from traverse_more_fuel [OF assms(1), of k'] traverse_more_fuel [OF assms(2), of k]
  show ?thesis by (simp add: add.commute)
qed

lemma end_offset_pos: "0 < C \<Longrightarrow> end_offset t C = (if C = 1 then t else t + 1)"
  by (simp add: end_offset_def smod_nonneg)

lemma begin_it_invar:
  assumes "invar b"
  shows "begin_it b = Inr (it_at (m_head b) (m_capacity b) 0)"
proof -
  from assms have "0 \<le> m_head b" "m_head b < m_capacity b" "0 < m_capacity b"
    by (simp_all add: invar_def)
  then show ?thesis by (simp add: begin_it_def it_at_def smod_nonneg Let_def)
qed

lemma end_it_invar:
  assumes "invar b"
  shows "end_it b = Inr \<lparr>it_begin = end_offset (m_tail b) (m_capacity b),
                         it_cursor = end_offset (m_tail b) (m_capacity b), it_done = full b\<rparr>"
  using assms by (simp add: end_it_def invar_def Let_def)

lemma iterate_invar:
  assumes "invar b"
  shows "iterate k b = traverse k (m_c b) (it_at (m_head b) (m_capacity b) 0)
     \<lparr>it_begin = end_offset (m_tail b) (m_capacity b),
      it_cursor = end_offset (m_tail b) (m_capacity b), it_done = full b\<rparr>"
  by (simp add: iterate_def begin_it_invar [OF assms] end_it_invar [OF assms])

lemma live_alt:
  "live b = map (\<lambda>j. m_c b ! nat ((m_head b + int j) mod m_capacity b)) [0..<nat (m_size b)]"
  by (simp add: live_def)

lemma iterate_full:
  assumes "invar b" and "m_size b = m_capacity b"
  shows "iterate (Suc (nat (m_capacity b))) b = Some (Inr (live b))"
proof -
  let ?C = "m_capacity b" and ?h = "m_head b"
  let ?e = "\<lparr>it_begin = end_offset (m_tail b) ?C, it_cursor = end_offset (m_tail b) ?C,
             it_done = full b\<rparr>"
  from assms have C: "0 < ?C" and len: "int (length (m_c b)) = ?C"
    and h: "0 \<le> ?h" "?h < ?C"
    by (simp_all add: invar_def)
  from assms(2) have f: "full b" by (simp add: full_def size_buf_def)
  have neq: "op_neq (it_at ?h ?C j) ?e" if "j < nat ?C" for j
  proof (cases "j = 0")
    case True
    with f show ?thesis by (simp add: op_neq_def op_eq_def it_at_def)
  next
    case False
    with that have "0 < int j" "int j < ?C" by simp_all
    from mod_shift_neq [OF this, of ?h] h have "(?h + int j) mod ?C \<noteq> ?h" by simp
    with f show ?thesis by (simp add: op_neq_def op_eq_def it_at_def)
  qed
  have "(?h + ?C) mod ?C = ?h" using h by simp
  with C f have eq: "op_eq (it_at ?h ?C (nat ?C)) ?e"
    by (simp add: op_eq_def it_at_def)
  have "traverse (Suc (nat ?C)) (m_c b) (it_at ?h ?C 0) ?e
          = Some (Inr (map (\<lambda>j. m_c b ! nat ((?h + int j) mod ?C)) [0..<nat ?C]))"
    by (rule traverse_reaches [OF C len _ eq]) (simp_all add: neq)
  then show ?thesis
    by (simp only: iterate_invar [OF assms(1)] live_alt assms(2))
qed

lemma iterate_partial:
  assumes "invar b" and "m_size b < m_capacity b"
    and "0 < m_current b" and "m_current b < m_capacity b"
  shows "iterate (Suc (nat (m_size b))) b = Some (Inr (live b))"
proof -
  let ?C = "m_capacity b" and ?h = "m_head b" and ?n = "m_size b"
  let ?e = "\<lparr>it_begin = end_offset (m_tail b) ?C, it_cursor = end_offset (m_tail b) ?C,
             it_done = full b\<rparr>"
  from assms have C: "0 < ?C" and len: "int (length (m_c b)) = ?C"
    and h: "0 \<le> ?h" "?h < ?C" and n: "0 \<le> ?n"
    and t: "m_tail b = m_current b - 1"
    and m: "(?h + ?n) mod ?C = m_current b mod ?C"
    by (simp_all add: invar_def)
  from assms(3,4) have "?C \<noteq> 1" by simp
  with C t have off: "end_offset (m_tail b) ?C = m_current b"
    by (simp add: end_offset_pos)
  from assms(2) have f: "\<not> full b" by (simp add: full_def size_buf_def)
  from m assms(3,4) have m': "(?h + ?n) mod ?C = m_current b" by simp
  have neq: "op_neq (it_at ?h ?C j) ?e" if "j < nat ?n" for j
  proof -
    from that assms(2) have "0 < ?n - int j" "?n - int j < ?C" by simp_all
    from mod_shift_neq [OF this, of "?h + int j"] have "(?h + int j) mod ?C \<noteq> m_current b"
      by (simp add: m' [symmetric])
    with f show ?thesis by (simp add: op_neq_def op_eq_def it_at_def off)
  qed
  have "\<not> (nat ?n \<noteq> 0 \<and> (?h + int (nat ?n)) mod ?C = ?h)"
  proof (cases "?n = 0")
    case True
    then show ?thesis by simp
  next
    case False
    with n assms(2) have "0 < ?n" "?n < ?C" by simp_all
    from mod_shift_neq [OF this, of ?h] h n show ?thesis by simp
  qed
  with f n m' have eq: "op_eq (it_at ?h ?C (nat ?n)) ?e"
    by (simp add: op_eq_def it_at_def off)
  have "traverse (Suc (nat ?n)) (m_c b) (it_at ?h ?C 0) ?e
          = Some (Inr (map (\<lambda>j. m_c b ! nat ((?h + int j) mod ?C)) [0..<nat ?n]))"
    by (rule traverse_reaches [OF C len _ eq]) (simp_all add: neq)
  then show ?thesis
    by (simp only: iterate_invar [OF assms(1)] live_alt)
qed

lemma iterate_capacity_one_empty:
  assumes "invar b" and "m_size b < m_capacity b" and "m_capacity b = 1"
  shows "iterate (Suc 0) b = Some (Inr (live b))"
proof -
  from assms have "m_size b = 0" "m_head b = 0" "m_tail b = 0" "\<not> full b"
    by (simp_all add: invar_def full_def size_buf_def)
  then show ?thesis
    by (simp add: iterate_invar [OF assms(1)] assms(3) end_offset_pos it_at_def op_neq_def
        op_eq_def live_def)
qed

lemma iterate_diverges:
  assumes "invar b" and "m_size b < m_capacity b" and "m_current b = m_capacity b"
    and "1 < m_capacity b"
  shows "iterate k b = None"
proof -
  let ?C = "m_capacity b" and ?h = "m_head b"
  let ?e = "\<lparr>it_begin = end_offset (m_tail b) ?C, it_cursor = end_offset (m_tail b) ?C,
             it_done = full b\<rparr>"
  from assms have C: "0 < ?C" and len: "int (length (m_c b)) = ?C"
    and t: "m_tail b = ?C - 1"
    by (simp_all add: invar_def)
  from assms(4) C t have off: "end_offset (m_tail b) ?C = ?C"
    by (simp add: end_offset_pos)
  from assms(2) have f: "\<not> full b" by (simp add: full_def size_buf_def)
  have neq: "op_neq (it_at ?h ?C j) ?e" for j
  proof -
    have "(?h + int j) mod ?C < ?C" using C by simp
    then have "(?h + int j) mod ?C \<noteq> ?C" by simp
    with f show ?thesis by (simp add: op_neq_def op_eq_def it_at_def off)
  qed
  show ?thesis
    unfolding iterate_invar [OF assms(1)]
    by (rule traverse_diverges [OF C len neq])
qed

lemma iterate_fresh:
  assumes "invar b" and "m_current b = 0" and "1 < m_capacity b"
  shows "iterate (2 + k) b = Some (Inr [m_c b ! 0])"
proof -
  let ?C = "m_capacity b"
  let ?e = "\<lparr>it_begin = end_offset (m_tail b) ?C, it_cursor = end_offset (m_tail b) ?C,
             it_done = full b\<rparr>"
  from assms have C: "0 < ?C" and len: "int (length (m_c b)) = ?C"
    and z: "m_size b = 0" "m_head b = 0" "m_tail b = 0"
    by (simp_all add: invar_def)
  from assms(3) C z have off: "end_offset (m_tail b) ?C = 1"
    by (simp add: end_offset_pos)
  from z C have f: "\<not> full b" by (simp add: full_def size_buf_def)
  have neq: "op_neq (it_at 0 ?C j) ?e" if "j < 1" for j
    using that f by (simp add: op_neq_def op_eq_def it_at_def off)
  have eq: "op_eq (it_at 0 ?C 1) ?e"
    using f assms(3) by (simp add: op_eq_def it_at_def off)
  have "traverse (Suc 1) (m_c b) (it_at 0 ?C 0) ?e
          = Some (Inr (map (\<lambda>j. m_c b ! nat ((0 + int j) mod ?C)) [0..<1]))"
    by (rule traverse_reaches [OF C len _ eq]) (simp_all add: neq)
  then have "traverse 2 (m_c b) (it_at 0 ?C 0) ?e = Some (Inr [m_c b ! 0])"
    by (simp add: numeral_2_eq_2)
  from traverse_more_fuel [OF this, of k] show ?thesis
    by (simp add: iterate_invar [OF assms(1)] z)
qed

text \<open>The states in which the traversal is the sequence of live elements.\<close>

lemma iterate_live_iff:
  assumes "invar b"
  shows "(\<exists>k. iterate k b = Some (Inr (live b)))
       = (full b \<or> m_capacity b = 1 \<or> (0 < m_current b \<and> m_current b < m_capacity b))"
proof (cases "full b \<or> m_capacity b = 1 \<or> (0 < m_current b \<and> m_current b < m_capacity b)")
  case True
  from assms have le: "m_size b \<le> m_capacity b" by (simp add: invar_def)
  have "\<exists>k. iterate k b = Some (Inr (live b))"
  proof (cases "m_size b = m_capacity b")
    case True
    from iterate_full [OF assms True] show ?thesis by blast
  next
    case False
    with le have lt: "m_size b < m_capacity b" by simp
    then have nf: "\<not> full b" by (simp add: full_def size_buf_def)
    show ?thesis
    proof (cases "m_capacity b = 1")
      case True
      from iterate_capacity_one_empty [OF assms lt True] show ?thesis by blast
    next
      case False
      with \<open>full b \<or> m_capacity b = 1 \<or> (0 < m_current b \<and> m_current b < m_capacity b)\<close> nf
      have "0 < m_current b" "m_current b < m_capacity b" by simp_all
      from iterate_partial [OF assms lt this] show ?thesis by blast
    qed
  qed
  with True show ?thesis by simp
next
  case False
  then have nf: "\<not> full b" and c1: "m_capacity b \<noteq> 1"
    and cur: "m_current b \<le> 0 \<or> m_capacity b \<le> m_current b"
    by auto
  from assms c1 have C: "1 < m_capacity b" by (simp add: invar_def)
  from nf have lt: "m_size b < m_capacity b" by (simp add: full_def size_buf_def)
  have "iterate k b \<noteq> Some (Inr (live b))" for k
  proof (cases "m_current b = 0")
    case True
    with assms have "live b = []" by (simp add: live_def invar_def)
    show ?thesis
    proof
      assume a: "iterate k b = Some (Inr (live b))"
      from iterate_fresh [OF assms True C, of 0]
      have b2: "iterate 2 b = Some (Inr [m_c b ! 0])" by simp
      from a b2 have "Inr (live b) = (Inr [m_c b ! 0] :: error + 'a list)"
        unfolding iterate_invar [OF assms] by (rule traverse_fuel_unique)
      with \<open>live b = []\<close> show False by simp
    qed
  next
    case False
    with cur assms have "m_current b = m_capacity b" by (simp add: invar_def)
    from iterate_diverges [OF assms lt this C, of k] show ?thesis by simp
  qed
  with False show ?thesis by simp
qed

lemma spec_run_pushes:
  assumes "0 < n"
  shows "length xs \<le> n \<Longrightarrow>
         spec_run n xs (map PushBack vs) = drop (length (xs @ vs) - n) (xs @ vs)"
proof (induction vs arbitrary: xs)
  case Nil
  then show ?case by simp
next
  case (Cons v vs)
  show ?case
  proof (cases "length xs = n")
    case True
    with assms obtain x t where xs: "xs = x # t" by (cases xs) auto
    with True have t: "length (t @ [v]) = n" by simp
    then have "spec_run n (t @ [v]) (map PushBack vs)
        = drop (length ((t @ [v]) @ vs) - n) ((t @ [v]) @ vs)"
      by (intro Cons.IH) simp
    moreover from t have "length ((t @ [v]) @ vs) - n = length vs" by simp
    ultimately have ih: "spec_run n (t @ [v]) (map PushBack vs) = drop (length vs) ((t @ [v]) @ vs)"
      by (simp only:)
    from True xs have len: "length (xs @ v # vs) - n = Suc (length vs)" by simp
    have "spec_run n xs (map PushBack (v # vs)) = spec_run n (t @ [v]) (map PushBack vs)"
      using True xs by simp
    also note ih
    also have "drop (length vs) ((t @ [v]) @ vs) = drop (Suc (length vs)) (xs @ v # vs)"
      by (simp add: xs)
    also have "\<dots> = drop (length (xs @ v # vs) - n) (xs @ v # vs)"
      by (simp only: len)
    finally show ?thesis .
  next
    case False
    with Cons.prems have lt: "length xs < n" by simp
    then have "spec_run n (xs @ [v]) (map PushBack vs)
        = drop (length ((xs @ [v]) @ vs) - n) ((xs @ [v]) @ vs)"
      by (intro Cons.IH) simp
    with lt show ?thesis by simp
  qed
qed

lemma pushes_from_head:
  "invar b \<Longrightarrow> m_head b = 0 \<Longrightarrow> m_current b = m_size b
     \<Longrightarrow> m_size b + int (length vs) \<le> m_capacity b
     \<Longrightarrow> \<exists>b'. run b (map PushBack vs) = Some b' \<and> m_head b' = 0
            \<and> m_current b' = m_size b + int (length vs)"
proof (induction vs arbitrary: b)
  case Nil
  then show ?case by simp
next
  case (Cons v vs)
  let ?b1 = "snd (push_back b v)"
  from Cons.prems have lt: "m_size b < m_capacity b" by simp
  note pb = push_back_notfull [OF Cons.prems(1) lt, of v]
  from Cons.prems(3) lt have w: "write_idx b = m_size b" by (simp add: write_idx_def)
  from invar_push_back [OF Cons.prems(1), of v] have i1: "invar ?b1" by simp
  have s1: "m_head ?b1 = 0" "m_current ?b1 = m_size ?b1" "m_size ?b1 = m_size b + 1"
    "m_capacity ?b1 = m_capacity b"
    using Cons.prems(2) by (simp_all add: pb w)
  from Cons.prems(4) s1 have "m_size ?b1 + int (length vs) \<le> m_capacity ?b1" by simp
  from Cons.IH [OF i1 s1(1) s1(2) this] obtain b' where
    b': "run ?b1 (map PushBack vs) = Some b'" "m_head b' = 0"
        "m_current b' = m_size ?b1 + int (length vs)"
    by blast
  have "run b (map PushBack (v # vs)) = run ?b1 (map PushBack vs)"
    using run_Some_step [OF Cons.prems(1), of "PushBack v"] by simp
  with b' s1 show ?case by simp
qed

text \<open>
  After \<open>n\<close> pushes into a fresh buffer, with \<open>1 \<le> n \<le> Capacity\<close>: the size, the full
  flag and the traversal.
\<close>

lemma push_n_iterates:
  assumes "0 < cap" and "int (length c0) = cap"
    and "1 \<le> length vs" and "length vs \<le> nat cap"
  shows "\<exists>b. run (CircularBuffer_new cap c0) (map PushBack vs) = Some b
           \<and> size_buf b = int (length vs)
           \<and> full b = (length vs = nat cap)
           \<and> iterate (Suc (length vs)) b = Some (Inr vs)"
proof -
  let ?b0 = "CircularBuffer_new cap c0 :: 'a CircularBuffer"
  have i0: "invar ?b0" by (rule invar_new [OF assms(1,2)])
  from assms(1,4) have "int (length vs) \<le> cap" by linarith
  then have "m_size ?b0 + int (length vs) \<le> m_capacity ?b0"
    by (simp add: CircularBuffer_new_def)
  with pushes_from_head [OF i0, of vs] obtain b where
    b: "run ?b0 (map PushBack vs) = Some b" and h: "m_head b = 0"
    and cur: "m_current b = int (length vs)"
    by (auto simp: CircularBuffer_new_def)
  from reach_unique [OF assms(1,2) b] have i: "invar b" and c: "m_capacity b = cap"
    and l: "live b = spec_run (nat cap) [] (map PushBack vs)" by simp_all
  from assms(1) have "0 < nat cap" by simp
  from spec_run_pushes [OF this, of "[]" vs] assms(4) l have lv: "live b = vs" by simp
  from i have "0 \<le> m_size b" by (simp add: invar_def)
  with lv length_live [of b] have sz: "m_size b = int (length vs)" by simp
  have it: "iterate (Suc (length vs)) b = Some (Inr vs)"
  proof (cases "length vs = nat cap")
    case True
    with sz c assms(1) have f: "m_size b = m_capacity b" by simp
    from iterate_full [OF i f] lv c True show ?thesis by simp
  next
    case False
    with assms(4) sz c have lt: "m_size b < m_capacity b" by simp
    from cur assms(3) have "0 < m_current b" by linarith
    moreover from cur sz lt have "m_current b < m_capacity b" by simp
    ultimately have "iterate (Suc (nat (m_size b))) b = Some (Inr (live b))"
      by (rule iterate_partial [OF i lt])
    with lv sz show ?thesis by simp
  qed
  have "full b = (length vs = nat cap)"
    using sz c assms(1,4) by (auto simp: full_def size_buf_def)
  with b sz it show ?thesis by (simp add: size_buf_def)
qed

section \<open>Pushing past the capacity\<close>

text \<open>
  C3. For \<open>k \<ge> 1\<close>, pushing \<open>Capacity + k\<close> values into a fresh buffer with
  \<^verbatim>\<open>push_back\<close> never fails; afterwards \<^verbatim>\<open>size()\<close> is the capacity and the
  traversal from \<^verbatim>\<open>begin()\<close> to \<^verbatim>\<open>end()\<close> ends and yields the last \<open>Capacity\<close>
  values pushed, in the order they were pushed: the first \<open>k\<close> are gone.
\<close>

theorem push_back_evicts_oldest:
  assumes "0 < cap" and "int (length c0) = cap"
    and "1 \<le> k" and "length vs = nat cap + k"
  shows "\<exists>b. run (CircularBuffer_new cap c0) (map PushBack vs) = Some b
           \<and> size_buf b = cap
           \<and> iterate (Suc (nat cap)) b = Some (Inr (drop k vs))
           \<and> length (drop k vs) = nat cap"
proof -
  from reach [OF assms(1,2), of "map PushBack vs"] obtain b where
    b: "run (CircularBuffer_new cap c0) (map PushBack vs) = Some b" and i: "invar b"
    and c: "m_capacity b = cap"
    and l: "live b = spec_run (nat cap) [] (map PushBack vs)"
    by blast
  from assms(1) have "0 < nat cap" by simp
  from spec_run_pushes [OF this, of "[]" vs] assms(4) l have lv: "live b = drop k vs" by simp
  from assms(4) have len: "length (drop k vs) = nat cap" by simp
  from i have "0 \<le> m_size b" by (simp add: invar_def)
  with lv len length_live [of b] assms(1) have sz: "m_size b = cap" by simp
  with c have f: "m_size b = m_capacity b" by simp
  from iterate_full [OF i f] lv c have "iterate (Suc (nat cap)) b = Some (Inr (drop k vs))"
    by simp
  with b sz len show ?thesis by (simp add: size_buf_def)
qed

theorem push_back_evicts_oldest_witness:
  "(0::int) < 3 \<and> int (length [0, 0, 0::nat]) = 3 \<and> (1::nat) \<le> 2
   \<and> length [1, 2, 3, 4, 5::nat] = nat 3 + 2
   \<and> run (CircularBuffer_new 3 [0, 0, 0::nat]) (map PushBack [1, 2, 3, 4, 5])
       = Some \<lparr>m_c = [4, 5, 3], m_head = 2, m_tail = 1, m_size = 3, m_current = 2,
               m_capacity = 3\<rparr>
   \<and> iterate (Suc (nat 3)) \<lparr>m_c = [4, 5, 3::nat], m_head = 2, m_tail = 1, m_size = 3,
                             m_current = 2, m_capacity = 3\<rparr> = Some (Inr [3, 4, 5])"
proof -
  have r: "run (CircularBuffer_new 3 [0, 0, 0::nat]) (map PushBack [1, 2, 3, 4, 5])
       = Some \<lparr>m_c = [4, 5, 3], m_head = 2, m_tail = 1, m_size = 3, m_current = 2,
               m_capacity = 3\<rparr>"
    by (simp add: CircularBuffer_new_def push_back_def Let_def)
  from push_back_evicts_oldest [of 3 "[0, 0, 0::nat]" 2 "[1, 2, 3, 4, 5]"] r
  show ?thesis by simp
qed

section \<open>The traversal of a fresh buffer\<close>

text \<open>
  C2 at \<open>n = 0\<close> and capacity 2. No value has been pushed, \<^verbatim>\<open>size()\<close> is 0 and
  there is no live element, but the traversal from \<^verbatim>\<open>begin()\<close> to \<^verbatim>\<open>end()\<close> yields
  one element, whatever slot 0 holds: the constructor sets the tail index to 0, so
  \<^verbatim>\<open>end()\<close> is at slot 1 while \<^verbatim>\<open>begin()\<close> is at slot 0. (For \<open>1 \<le> n \<le> Capacity\<close>
  the claim holds, by \<open>push_n_iterates\<close>.)
\<close>

theorem fresh_traversal_reads_slot:
  "run (CircularBuffer_new 2 [7, 8::nat]) (map PushBack []) = Some (CircularBuffer_new 2 [7, 8])
   \<and> size_buf (CircularBuffer_new 2 [7, 8::nat]) = 0
   \<and> live (CircularBuffer_new 2 [7, 8::nat]) = []
   \<and> (\<forall>k. iterate (2 + k) (CircularBuffer_new 2 [7, 8::nat]) = Some (Inr [7]))"
proof -
  let ?b = "CircularBuffer_new 2 [7, 8::nat]"
  have i: "invar ?b" by (rule invar_new) simp_all
  have "iterate (2 + k) ?b = Some (Inr [m_c ?b ! 0])" for k
    by (rule iterate_fresh [OF i]) (simp_all add: CircularBuffer_new_def)
  then show ?thesis by (simp add: CircularBuffer_new_def size_buf_def live_def)
qed

section \<open>A traversal that does not end\<close>

text \<open>
  C1 at capacity 3, after \<^verbatim>\<open>push_back\<close> of 1, 2 and 3 and one \<^verbatim>\<open>pop\<close>. The live
  elements are 2 and 3, in slots 1 and 2; the tail is the last slot, so \<^verbatim>\<open>end()\<close>
  computes the offset 3, where no increment ever puts the cursor, and its done flag
  is unset, so no done iterator compares equal to it either. The traversal from
  \<^verbatim>\<open>begin()\<close> never reaches an iterator equal to \<^verbatim>\<open>end()\<close>: it is still running
  at every bound.
\<close>

theorem traversal_never_ends:
  "run (CircularBuffer_new 3 [0, 0, 0::nat]) [PushBack 1, PushBack 2, PushBack 3, Pop]
     = Some \<lparr>m_c = [1, 2, 3], m_head = 1, m_tail = 2, m_size = 2, m_current = 3,
             m_capacity = 3\<rparr>
   \<and> size_buf \<lparr>m_c = [1, 2, 3::nat], m_head = 1, m_tail = 2, m_size = 2, m_current = 3,
               m_capacity = 3\<rparr> = 2
   \<and> live \<lparr>m_c = [1, 2, 3::nat], m_head = 1, m_tail = 2, m_size = 2, m_current = 3,
           m_capacity = 3\<rparr> = [2, 3]
   \<and> (\<forall>k. iterate k \<lparr>m_c = [1, 2, 3::nat], m_head = 1, m_tail = 2, m_size = 2,
                       m_current = 3, m_capacity = 3\<rparr> = None)"
proof -
  let ?b = "\<lparr>m_c = [1, 2, 3::nat], m_head = 1, m_tail = 2, m_size = 2, m_current = 3,
             m_capacity = 3\<rparr>"
  have r: "run (CircularBuffer_new 3 [0, 0, 0::nat]) [PushBack 1, PushBack 2, PushBack 3, Pop]
     = Some ?b"
    by (simp add: CircularBuffer_new_def push_back_def pop_def Let_def)
  have i: "invar ?b" by (simp add: invar_def)
  have d: "iterate k ?b = None" for k
    by (rule iterate_diverges [OF i]) simp_all
  have l: "live ?b = [2, 3]"
    by (simp add: live_def numeral_2_eq_2)
  from r d l show ?thesis by (simp add: size_buf_def)
qed

end
